theory Spec2Isabelle
  imports Main "HOL-Library.Word" "HOL-Library.Multiset"
begin

section \<open>The Mastermind engine of \<open>mastermind.cpp\<close>\<close>

text \<open>
  The class \<open>Mastermind\<close> holds the hidden pegs (a C array of \<open>PEG_SLOTS\<close> values of
  type \<open>uint32_t\<close>), the number of colours and the remaining tries, both \<open>uint32_t\<close>.
  Arrays are lists here; the C++ types fix their length to \<open>PEG_SLOTS\<close>, which the
  theorems state as a hypothesis on the lists. Loop indices never exceed \<open>PEG_SLOTS\<close>,
  so they are natural numbers; the key counters and the tries counter are 32-bit words,
  whose arithmetic wraps around as \<open>uint32_t\<close> does.

  The constructor draws the hidden pegs from a random engine and \<open>main\<close> is a console
  loop around the class; neither is modelled. An object is any value of the record, so
  the theorems hold for whatever pegs the constructor may have drawn.
\<close>

type_synonym u32 = "32 word"

definition PEG_SLOTS :: nat where
  "PEG_SLOTS = 4"

record Mastermind =
  m_hidden_pegs :: "u32 list"
  m_peg_colors :: u32
  m_tries_allowed :: u32

text \<open>What \<open>guess\<close> hands back: its return value and its two output parameters.\<close>

record guess_result =
  win :: bool
  black_keys :: u32
  white_keys :: u32

subsection \<open>The first loop of \<open>guess\<close>: black keys\<close>

text \<open>
  \<open>for (i = 0; i < PEG_SLOTS; ++i) if (pegs[i] == m_hidden_pegs[i]) { ++black_keys;
  black_matched[i] = true; }\<close>, started at index \<open>i\<close> with the counter and the flag array
  as they are then.
\<close>

function find_black :: "u32 list \<Rightarrow> u32 list \<Rightarrow> nat \<Rightarrow> u32 \<times> bool list \<Rightarrow> u32 \<times> bool list" where
  "find_black pegs hidden i (bk, bm) =
     (if i < PEG_SLOTS then
        (if pegs ! i = hidden ! i
         then find_black pegs hidden (Suc i) (bk + 1, bm[i := True])
         else find_black pegs hidden (Suc i) (bk, bm))
      else (bk, bm))"
  by pat_completeness auto
termination
  by (relation "measure (\<lambda>(pegs, hidden, i, st). PEG_SLOTS - i)") auto

declare find_black.simps [simp del]

subsection \<open>The second loop of \<open>guess\<close>: white keys\<close>

text \<open>
  The inner loop over \<open>j\<close> for one guess peg \<open>p = pegs[i]\<close>: a hidden position that is
  black-matched or white-matched is skipped (\<open>continue\<close>); the first other position that
  holds \<open>p\<close> gives a white key, is marked, and ends the loop (\<open>break\<close>).
\<close>

function scan_hidden :: "u32 \<Rightarrow> u32 list \<Rightarrow> bool list \<Rightarrow> nat \<Rightarrow> u32 \<times> bool list \<Rightarrow> u32 \<times> bool list" where
  "scan_hidden p hidden bm j (wk, wm) =
     (if j < PEG_SLOTS then
        (if bm ! j \<or> wm ! j then scan_hidden p hidden bm (Suc j) (wk, wm)
         else if p = hidden ! j then (wk + 1, wm[j := True])
         else scan_hidden p hidden bm (Suc j) (wk, wm))
      else (wk, wm))"
  by pat_completeness auto
termination
  by (relation "measure (\<lambda>(p, hidden, bm, j, st). PEG_SLOTS - j)") auto

declare scan_hidden.simps [simp del]

text \<open>The outer loop over \<open>i\<close>: a black-matched guess position is skipped.\<close>

function find_white :: "u32 list \<Rightarrow> u32 list \<Rightarrow> bool list \<Rightarrow> nat \<Rightarrow> u32 \<times> bool list \<Rightarrow> u32 \<times> bool list" where
  "find_white pegs hidden bm i (wk, wm) =
     (if i < PEG_SLOTS then
        (if bm ! i then find_white pegs hidden bm (Suc i) (wk, wm)
         else find_white pegs hidden bm (Suc i) (scan_hidden (pegs ! i) hidden bm 0 (wk, wm)))
      else (wk, wm))"
  by pat_completeness auto
termination
  by (relation "measure (\<lambda>(pegs, hidden, bm, i, st). PEG_SLOTS - i)") auto

declare find_white.simps [simp del]

subsection \<open>The operations of the class\<close>

text \<open>
  \<open>guess\<close> zeroes both flag arrays and both counters, decrements \<open>m_tries_allowed\<close>,
  runs the two loops and returns whether \<open>black_keys == PEG_SLOTS\<close>. The object is
  passed in and returned, since the method writes to it.
\<close>

definition guess :: "Mastermind \<Rightarrow> u32 list \<Rightarrow> guess_result \<times> Mastermind" where
  "guess g pegs =
     (let black_matched0 = replicate PEG_SLOTS False;
          white_matched0 = replicate PEG_SLOTS False;
          g' = g\<lparr>m_tries_allowed := m_tries_allowed g - 1\<rparr>;
          (bk, black_matched) = find_black pegs (m_hidden_pegs g') 0 (0, black_matched0);
          (wk, white_matched) =
             find_white pegs (m_hidden_pegs g') black_matched 0 (0, white_matched0)
      in (\<lparr>win = (bk = of_nat PEG_SLOTS), black_keys = bk, white_keys = wk\<rparr>, g'))"

text \<open>
  \<open>turnsLeft\<close> and \<open>peer\<close> are \<open>const\<close> methods, but \<open>m_tries_allowed\<close> is declared
  \<open>mutable\<close>, so they too return the object, unchanged as in the source.
\<close>

definition turnsLeft :: "Mastermind \<Rightarrow> u32 \<times> Mastermind" where
  "turnsLeft g = (m_tries_allowed g, g)"

text \<open>\<open>for (i = 0; i < PEG_SLOTS; ++i) pegs[i] = m_hidden_pegs[i];\<close>\<close>

function peer_loop :: "u32 list \<Rightarrow> nat \<Rightarrow> u32 list \<Rightarrow> u32 list" where
  "peer_loop hidden i pegs =
     (if i < PEG_SLOTS then peer_loop hidden (Suc i) (pegs[i := hidden ! i]) else pegs)"
  by pat_completeness auto
termination
  by (relation "measure (\<lambda>(hidden, i, pegs). PEG_SLOTS - i)") auto

declare peer_loop.simps [simp del]

definition peer :: "Mastermind \<Rightarrow> u32 list \<Rightarrow> u32 list \<times> Mastermind" where
  "peer g pegs = (peer_loop (m_hidden_pegs g) 0 pegs, g)"

section \<open>The scoring algorithm as the specification words it\<close>

text \<open>
  Pass 1 of the specification: for each position \<open>i\<close> in \<open>[0,4)\<close>, if
  \<open>guess[i] == secret[i]\<close>, position \<open>i\<close> is consumed on both sides. The result is the
  list of consumed positions; its length is the number of black keys.
\<close>

definition spec_exact :: "u32 list \<Rightarrow> u32 list \<Rightarrow> nat list" where
  "spec_exact G S = filter (\<lambda>i. G ! i = S ! i) [0..<4]"

text \<open>
  Pass 2 of the specification, over the unconsumed guess positions that are left to
  visit: for position \<open>i\<close>, the unconsumed secret positions are scanned in increasing
  order; the first \<open>j\<close> with \<open>guess[i] == secret[j]\<close> gives a white key and becomes
  consumed, and the scan for \<open>i\<close> stops. The result lists the pairs \<open>(i, j)\<close> that gave a
  white key.
\<close>

fun spec_pass2 :: "u32 list \<Rightarrow> u32 list \<Rightarrow> nat list \<Rightarrow> nat list \<Rightarrow> (nat \<times> nat) list" where
  "spec_pass2 G S consumed [] = []"
| "spec_pass2 G S consumed (i # is) =
     (case find (\<lambda>j. j \<notin> set consumed \<and> G ! i = S ! j) [0..<4] of
        None \<Rightarrow> spec_pass2 G S consumed is
      | Some j \<Rightarrow> (i, j) # spec_pass2 G S (j # consumed) is)"

definition spec_white_pairs :: "u32 list \<Rightarrow> u32 list \<Rightarrow> (nat \<times> nat) list" where
  "spec_white_pairs G S =
     (let consumed = spec_exact G S
      in spec_pass2 G S consumed (filter (\<lambda>i. i \<notin> set consumed) [0..<4]))"

definition spec_whiteKeys :: "u32 list \<Rightarrow> u32 list \<Rightarrow> nat" where
  "spec_whiteKeys G S = length (spec_white_pairs G S)"

text \<open>
  The multiset reference: the sum, over the colour values \<open>v\<close>, of the smaller of the
  numbers of occurrences of \<open>v\<close> in the guess and in the secret. A value that occurs in
  neither adds nothing, so the sum runs over the values that occur.
\<close>

definition color_matches :: "u32 list \<Rightarrow> u32 list \<Rightarrow> nat" where
  "color_matches G S = (\<Sum>v \<in> set G \<union> set S. min (count_list G v) (count_list S v))"

text \<open>
  A colour-only matching: pairs of a guess position and a secret position, neither of
  them an exact match, that hold the same value, with no guess position and no secret
  position used twice.
\<close>

definition color_only_matching :: "u32 list \<Rightarrow> u32 list \<Rightarrow> (nat \<times> nat) list \<Rightarrow> bool" where
  "color_only_matching G S M =
     (distinct (map fst M) \<and> distinct (map snd M) \<and>
      list_all (\<lambda>(i, j). i < 4 \<and> j < 4 \<and> G ! i \<noteq> S ! i \<and> G ! j \<noteq> S ! j \<and> G ! i = S ! j) M)"

section \<open>Notions used in the proofs\<close>

text \<open>
  The positions where guess and secret agree, those where they differ, and the multiset
  of hidden values that the second loop may still use: the ones at positions with neither
  flag set.
\<close>

definition exact :: "u32 list \<Rightarrow> u32 list \<Rightarrow> nat list" where
  "exact pegs hidden = filter (\<lambda>k. pegs ! k = hidden ! k) [0..<PEG_SLOTS]"

definition inexact :: "u32 list \<Rightarrow> u32 list \<Rightarrow> nat list" where
  "inexact pegs hidden = filter (\<lambda>k. pegs ! k \<noteq> hidden ! k) [0..<PEG_SLOTS]"

definition avail :: "u32 list \<Rightarrow> bool list \<Rightarrow> bool list \<Rightarrow> u32 multiset" where
  "avail hidden bm wm =
     mset (map ((!) hidden) (filter (\<lambda>k. \<not> bm ! k \<and> \<not> wm ! k) [0..<PEG_SLOTS]))"

section \<open>What the two loops compute\<close>

lemma find_black_fst:
  "fst (find_black pegs hidden i (bk, bm)) =
     bk + of_nat (length (filter (\<lambda>k. pegs ! k = hidden ! k) [i..<PEG_SLOTS]))"
proof (induction pegs hidden i "(bk, bm)" arbitrary: bk bm rule: find_black.induct)
  case (1 pegs hidden i bk bm)
  show ?case
  proof (cases "i < PEG_SLOTS")
    case True
    then have u: "[i..<PEG_SLOTS] = i # [Suc i..<PEG_SLOTS]"
      by (simp add: upt_conv_Cons)
    show ?thesis
      using True 1 by (simp add: find_black.simps [of pegs hidden i] u)
  next
    case False
    then show ?thesis by (simp add: find_black.simps [of pegs hidden i])
  qed
qed

lemma find_black_snd_length:
  "length (snd (find_black pegs hidden i (bk, bm))) = length bm"
proof (induction pegs hidden i "(bk, bm)" arbitrary: bk bm rule: find_black.induct)
  case (1 pegs hidden i bk bm)
  then show ?case
    by (simp add: find_black.simps [of pegs hidden i])
qed

lemma find_black_snd_nth:
  "k < length bm \<Longrightarrow>
   snd (find_black pegs hidden i (bk, bm)) ! k =
     (bm ! k \<or> (i \<le> k \<and> k < PEG_SLOTS \<and> pegs ! k = hidden ! k))"
proof (induction pegs hidden i "(bk, bm)" arbitrary: bk bm rule: find_black.induct)
  case (1 pegs hidden i bk bm)
  show ?case
  proof (cases "i < PEG_SLOTS")
    case True
    show ?thesis
    proof (cases "pegs ! i = hidden ! i")
      case m: True
      have "snd (find_black pegs hidden i (bk, bm)) ! k =
            snd (find_black pegs hidden (Suc i) (bk + 1, bm[i := True])) ! k"
        using True m by (simp add: find_black.simps [of pegs hidden i])
      also have "\<dots> = (bm[i := True] ! k \<or> (Suc i \<le> k \<and> k < PEG_SLOTS \<and> pegs ! k = hidden ! k))"
        using 1(1) [OF True m] 1(3) by simp
      also have "\<dots> = (bm ! k \<or> (i \<le> k \<and> k < PEG_SLOTS \<and> pegs ! k = hidden ! k))"
        using 1(3) True m by (cases "k = i") (auto simp: nth_list_update)
      finally show ?thesis .
    next
      case m: False
      have "snd (find_black pegs hidden i (bk, bm)) ! k =
            snd (find_black pegs hidden (Suc i) (bk, bm)) ! k"
        using True m by (simp add: find_black.simps [of pegs hidden i])
      also have "\<dots> = (bm ! k \<or> (Suc i \<le> k \<and> k < PEG_SLOTS \<and> pegs ! k = hidden ! k))"
        using 1(2) [OF True m] 1(3) by simp
      also have "\<dots> = (bm ! k \<or> (i \<le> k \<and> k < PEG_SLOTS \<and> pegs ! k = hidden ! k))"
        using m by (cases "k = i") auto
      finally show ?thesis .
    qed
  next
    case False
    then show ?thesis by (auto simp add: find_black.simps [of pegs hidden i])
  qed
qed

lemma scan_hidden_find:
  "scan_hidden p hidden bm j (wk, wm) =
     (case find (\<lambda>k. \<not> bm ! k \<and> \<not> wm ! k \<and> p = hidden ! k) [j..<PEG_SLOTS] of
        None \<Rightarrow> (wk, wm)
      | Some k \<Rightarrow> (wk + 1, wm[k := True]))"
proof (induction p hidden bm j "(wk, wm)" rule: scan_hidden.induct)
  case (1 p hidden bm j)
  show ?case
  proof (cases "j < PEG_SLOTS")
    case True
    then have u: "[j..<PEG_SLOTS] = j # [Suc j..<PEG_SLOTS]"
      by (simp add: upt_conv_Cons)
    show ?thesis
      using True 1 by (simp add: scan_hidden.simps [of p hidden bm j] u)
  next
    case False
    then show ?thesis by (simp add: scan_hidden.simps [of p hidden bm j])
  qed
qed

lemma mset_filter_remove1:
  "distinct xs \<Longrightarrow> k \<in> set xs \<Longrightarrow> P k \<Longrightarrow>
   mset (map f (filter (\<lambda>j. P j \<and> j \<noteq> k) xs)) = mset (map f (filter P xs)) - {#f k#}"
proof (induction xs)
  case Nil
  then show ?case by simp
next
  case (Cons x xs)
  show ?case
  proof (cases "x = k")
    case True
    then have "k \<notin> set xs" using Cons.prems by simp
    then have "filter (\<lambda>j. P j \<and> j \<noteq> k) xs = filter P xs"
      by (intro filter_cong) auto
    then show ?thesis using True Cons.prems by simp
  next
    case False
    then have "k \<in> set xs" using Cons.prems by simp
    then have "f k \<in># mset (map f (filter P xs))"
      using Cons.prems by auto
    then show ?thesis using False Cons by simp
  qed
qed

lemma avail_update:
  assumes "k < PEG_SLOTS" "length wm = PEG_SLOTS" "\<not> bm ! k" "\<not> wm ! k"
  shows "avail hidden bm (wm[k := True]) = avail hidden bm wm - {#hidden ! k#}"
proof -
  have "filter (\<lambda>j. \<not> bm ! j \<and> \<not> wm[k := True] ! j) [0..<PEG_SLOTS] =
        filter (\<lambda>j. (\<not> bm ! j \<and> \<not> wm ! j) \<and> j \<noteq> k) [0..<PEG_SLOTS]"
    using assms by (intro filter_cong) (auto simp: nth_list_update)
  then show ?thesis
    using assms mset_filter_remove1 [of "[0..<PEG_SLOTS]" k "\<lambda>j. \<not> bm ! j \<and> \<not> wm ! j" "(!) hidden"]
    by (simp add: avail_def)
qed

lemma find_white_fst:
  "length wm = PEG_SLOTS \<Longrightarrow>
   fst (find_white pegs hidden bm i (wk, wm)) =
     wk + of_nat (size (mset (map ((!) pegs) (filter (\<lambda>k. \<not> bm ! k) [i..<PEG_SLOTS]))
                        \<inter># avail hidden bm wm))"
proof (induction pegs hidden bm i "(wk, wm)" arbitrary: wk wm rule: find_white.induct)
  case (1 pegs hidden bm i wk wm)
  show ?case
  proof (cases "i < PEG_SLOTS")
    case False
    then show ?thesis by (simp add: find_white.simps [of pegs hidden bm i])
  next
    case True
    then have u: "[i..<PEG_SLOTS] = i # [Suc i..<PEG_SLOTS]"
      by (simp add: upt_conv_Cons)
    show ?thesis
    proof (cases "bm ! i")
      case b: True
      then show ?thesis
        using True 1(1) [OF True b] 1(3) by (simp add: find_white.simps [of pegs hidden bm i] u)
    next
      case b: False
      let ?Q = "\<lambda>k. \<not> bm ! k \<and> \<not> wm ! k \<and> pegs ! i = hidden ! k"
      let ?rest = "mset (map ((!) pegs) (filter (\<lambda>k. \<not> bm ! k) [Suc i..<PEG_SLOTS]))"
      show ?thesis
      proof (cases "find ?Q [0..<PEG_SLOTS]")
        case None
        then have s: "scan_hidden (pegs ! i) hidden bm 0 (wk, wm) = (wk, wm)"
          by (simp add: scan_hidden_find)
        from None have "pegs ! i \<notin># avail hidden bm wm"
          by (auto simp: find_None_iff avail_def)
        then have "add_mset (pegs ! i) ?rest \<inter># avail hidden bm wm = ?rest \<inter># avail hidden bm wm"
          by (rule inter_add_left1)
        then show ?thesis
          using True b s 1(2) [OF True b s] 1(3)
          by (simp add: find_white.simps [of pegs hidden bm i] u)
      next
        case (Some k)
        then have s: "scan_hidden (pegs ! i) hidden bm 0 (wk, wm) = (wk + 1, wm[k := True])"
          by (simp add: scan_hidden_find)
        from Some have k: "k < PEG_SLOTS" "\<not> bm ! k" "\<not> wm ! k" "pegs ! i = hidden ! k"
          by (auto simp: find_Some_iff)
        then have "pegs ! i \<in># avail hidden bm wm"
          by (auto simp: avail_def)
        then have "add_mset (pegs ! i) ?rest \<inter># avail hidden bm wm =
                   add_mset (pegs ! i) (?rest \<inter># (avail hidden bm wm - {#pegs ! i#}))"
          by (rule inter_add_left2)
        moreover have "avail hidden bm (wm[k := True]) = avail hidden bm wm - {#pegs ! i#}"
          using avail_update [OF k(1) 1(3) k(2) k(3)] k(4) by simp
        ultimately show ?thesis
          using True b s 1(2) [OF True b s] 1(3)
          by (simp add: find_white.simps [of pegs hidden bm i] u)
      qed
    qed
  qed
qed


lemma guess_unfold:
  "guess g pegs =
     (let fb = find_black pegs (m_hidden_pegs g) 0 (0, replicate PEG_SLOTS False) in
      (\<lparr>win = (fst fb = of_nat PEG_SLOTS), black_keys = fst fb,
        white_keys = fst (find_white pegs (m_hidden_pegs g) (snd fb) 0
                            (0, replicate PEG_SLOTS False))\<rparr>,
       g\<lparr>m_tries_allowed := m_tries_allowed g - 1\<rparr>))"
  by (simp add: guess_def Let_def split: prod.split)

lemma guess_snd: "snd (guess g pegs) = g\<lparr>m_tries_allowed := m_tries_allowed g - 1\<rparr>"
  by (simp add: guess_unfold Let_def)

lemma guess_win: "win (fst (guess g pegs)) = (black_keys (fst (guess g pegs)) = of_nat PEG_SLOTS)"
  by (simp add: guess_unfold Let_def)

lemma guess_black:
  "black_keys (fst (guess g pegs)) = of_nat (length (exact pegs (m_hidden_pegs g)))"
  by (simp add: guess_unfold Let_def find_black_fst exact_def)

lemma black_flags:
  assumes "k < PEG_SLOTS"
  shows "snd (find_black pegs hidden 0 (0, replicate PEG_SLOTS False)) ! k
           = (pegs ! k = hidden ! k)"
  using assms find_black_snd_nth [of k "replicate PEG_SLOTS False" pegs hidden 0 0]
  by simp

lemma guess_white:
  "white_keys (fst (guess g pegs)) =
     of_nat (size (mset (map ((!) pegs) (inexact pegs (m_hidden_pegs g)))
                   \<inter># mset (map ((!) (m_hidden_pegs g)) (inexact pegs (m_hidden_pegs g)))))"
proof -
  let ?h = "m_hidden_pegs g"
  let ?bm = "snd (find_black pegs ?h 0 (0, replicate PEG_SLOTS False))"
  have a: "filter (\<lambda>k. \<not> ?bm ! k) [0..<PEG_SLOTS] = inexact pegs ?h"
    unfolding inexact_def by (intro filter_cong) (auto simp: black_flags)
  have b: "avail ?h ?bm (replicate PEG_SLOTS False) = mset (map ((!) ?h) (inexact pegs ?h))"
  proof -
    have "filter (\<lambda>k. \<not> ?bm ! k \<and> \<not> replicate PEG_SLOTS False ! k) [0..<PEG_SLOTS]
            = inexact pegs ?h"
      unfolding inexact_def by (intro filter_cong) (auto simp: black_flags)
    then show ?thesis by (simp add: avail_def)
  qed
  show ?thesis
    using find_white_fst [of "replicate PEG_SLOTS False" pegs ?h ?bm 0 0]
    by (simp add: guess_unfold Let_def a b)
qed

lemma length_exact_inexact: "length (exact pegs hidden) + length (inexact pegs hidden) = PEG_SLOTS"
  using sum_length_filter_compl [of "\<lambda>k. pegs ! k = hidden ! k" "[0..<PEG_SLOTS]"]
  by (simp add: exact_def inexact_def)

lemma size_inter_le: "size (mset (map f xs) \<inter># M) \<le> length xs"
proof -
  have "size (mset (map f xs) \<inter># M) \<le> size (mset (map f xs))"
    by (rule size_mset_mono) simp
  then show ?thesis by simp
qed

lemma unat_of_nat_slots: "n \<le> PEG_SLOTS \<Longrightarrow> unat (of_nat n :: u32) = n"
  by (simp add: PEG_SLOTS_def unat_of_nat)

lemma guess_black_unat:
  "unat (black_keys (fst (guess g pegs))) = length (exact pegs (m_hidden_pegs g))"
  using length_exact_inexact [of pegs "m_hidden_pegs g"]
  by (simp add: guess_black unat_of_nat_slots)

lemma guess_white_unat:
  "unat (white_keys (fst (guess g pegs))) =
     size (mset (map ((!) pegs) (inexact pegs (m_hidden_pegs g)))
           \<inter># mset (map ((!) (m_hidden_pegs g)) (inexact pegs (m_hidden_pegs g))))"
proof -
  let ?n = "size (mset (map ((!) pegs) (inexact pegs (m_hidden_pegs g)))
           \<inter># mset (map ((!) (m_hidden_pegs g)) (inexact pegs (m_hidden_pegs g))))"
  have "?n \<le> length (inexact pegs (m_hidden_pegs g))" by (rule size_inter_le)
  also have "\<dots> \<le> PEG_SLOTS" using length_exact_inexact [of pegs "m_hidden_pegs g"] by simp
  finally show ?thesis by (simp add: guess_white unat_of_nat_slots)
qed

lemma exact_all:
  assumes "length pegs = PEG_SLOTS" "length hidden = PEG_SLOTS"
  shows "(length (exact pegs hidden) = PEG_SLOTS) = (pegs = hidden)"
proof
  assume "pegs = hidden"
  then show "length (exact pegs hidden) = PEG_SLOTS" by (simp add: exact_def)
next
  assume l: "length (exact pegs hidden) = PEG_SLOTS"
  have "pegs ! k = hidden ! k" if "k < PEG_SLOTS" for k
  proof (rule ccontr)
    assume "pegs ! k \<noteq> hidden ! k"
    then have "length (filter (\<lambda>k. pegs ! k = hidden ! k) [0..<PEG_SLOTS]) < length [0..<PEG_SLOTS]"
      using that by (intro length_filter_less [of k]) auto
    then show False using l by (simp add: exact_def)
  qed
  then show "pegs = hidden"
    using assms by (intro nth_equalityI) auto
qed

lemma peer_loop_length: "length (peer_loop hidden i pegs) = length pegs"
proof (induction hidden i pegs rule: peer_loop.induct)
  case (1 hidden i pegs)
  then show ?case by (simp add: peer_loop.simps [of hidden i])
qed

lemma peer_loop_nth:
  "k < length pegs \<Longrightarrow>
   peer_loop hidden i pegs ! k = (if i \<le> k \<and> k < PEG_SLOTS then hidden ! k else pegs ! k)"
proof (induction hidden i pegs rule: peer_loop.induct)
  case (1 hidden i pegs)
  show ?case
  proof (cases "i < PEG_SLOTS")
    case True
    then show ?thesis
      using 1 by (cases "k = i") (auto simp: peer_loop.simps [of hidden i] nth_list_update)
  next
    case False
    then show ?thesis by (auto simp: peer_loop.simps [of hidden i])
  qed
qed

lemma peer_loop_copy:
  assumes "length pegs = PEG_SLOTS" "length hidden = PEG_SLOTS"
  shows "peer_loop hidden 0 pegs = hidden"
  using assms by (intro nth_equalityI) (auto simp: peer_loop_length peer_loop_nth)

section \<open>The loops against the specification's passes\<close>

lemma upt_slots: "[0..<4] = [0..<PEG_SLOTS]"
  by (simp add: PEG_SLOTS_def)

lemma spec_exact_exact: "spec_exact G S = exact G S"
  by (simp add: spec_exact_def exact_def upt_slots)

lemma find_white_spec:
  assumes "length wm = PEG_SLOTS"
    and "\<And>j. j < PEG_SLOTS \<Longrightarrow> (j \<in> set consumed) = (bm ! j \<or> wm ! j)"
  shows "find_white pegs hidden bm i (wk, wm) =
           (wk + of_nat (length (spec_pass2 pegs hidden consumed
                                   (filter (\<lambda>k. \<not> bm ! k) [i..<PEG_SLOTS]))),
            fold (\<lambda>p m. m[snd p := True])
                 (spec_pass2 pegs hidden consumed (filter (\<lambda>k. \<not> bm ! k) [i..<PEG_SLOTS])) wm)"
  using assms
proof (induction pegs hidden bm i "(wk, wm)" arbitrary: wk wm consumed rule: find_white.induct)
  case (1 pegs hidden bm i wk wm)
  show ?case
  proof (cases "i < PEG_SLOTS")
    case False
    then show ?thesis by (simp add: find_white.simps [of pegs hidden bm i])
  next
    case True
    then have u: "[i..<PEG_SLOTS] = i # [Suc i..<PEG_SLOTS]"
      by (simp add: upt_conv_Cons)
    show ?thesis
    proof (cases "bm ! i")
      case b: True
      show ?thesis
        using True b 1(1) [OF True b 1(3) 1(4)]
        by (simp add: find_white.simps [of pegs hidden bm i] u)
    next
      case b: False
      have f: "find (\<lambda>j. j \<notin> set consumed \<and> pegs ! i = hidden ! j) [0..<4] =
               find (\<lambda>k. \<not> bm ! k \<and> \<not> wm ! k \<and> pegs ! i = hidden ! k) [0..<PEG_SLOTS]"
        unfolding upt_slots by (rule find_cong) (auto simp: 1(4))
      show ?thesis
      proof (cases "find (\<lambda>k. \<not> bm ! k \<and> \<not> wm ! k \<and> pegs ! i = hidden ! k) [0..<PEG_SLOTS]")
        case None
        then have s: "scan_hidden (pegs ! i) hidden bm 0 (wk, wm) = (wk, wm)"
          by (simp add: scan_hidden_find)
        show ?thesis
          using True b None f 1(2) [OF True b s 1(3) 1(4)]
          by (simp add: find_white.simps [of pegs hidden bm i] u s)
      next
        case (Some k)
        then have s: "scan_hidden (pegs ! i) hidden bm 0 (wk, wm) = (wk + 1, wm[k := True])"
          by (simp add: scan_hidden_find)
        from Some have k: "k < PEG_SLOTS"
          by (auto simp: find_Some_iff)
        have l: "length (wm[k := True]) = PEG_SLOTS" using 1(3) by simp
        have c: "(j \<in> set (k # consumed)) = (bm ! j \<or> wm[k := True] ! j)" if "j < PEG_SLOTS" for j
          using that 1(3) 1(4) [OF that] k by (cases "j = k") (auto simp: nth_list_update)
        show ?thesis
          using True b Some f 1(2) [OF True b s l c]
          by (simp add: find_white.simps [of pegs hidden bm i] u s)
      qed
    qed
  qed
qed

lemma guess_white_spec:
  "white_keys (fst (guess g pegs)) = of_nat (length (spec_white_pairs pegs (m_hidden_pegs g)))"
proof -
  let ?h = "m_hidden_pegs g"
  let ?bm = "snd (find_black pegs ?h 0 (0, replicate PEG_SLOTS False))"
  have c: "(j \<in> set (spec_exact pegs ?h)) = (?bm ! j \<or> replicate PEG_SLOTS False ! j)"
    if "j < PEG_SLOTS" for j
    using that by (simp add: black_flags spec_exact_exact exact_def)
  have a: "filter (\<lambda>k. \<not> ?bm ! k) [0..<PEG_SLOTS] =
           filter (\<lambda>i. i \<notin> set (spec_exact pegs ?h)) [0..<4]"
    unfolding upt_slots
    by (rule filter_cong) (auto simp: black_flags spec_exact_exact exact_def)
  show ?thesis
    using find_white_spec [of "replicate PEG_SLOTS False" "spec_exact pegs ?h" ?bm pegs ?h 0 0, OF _ c]
    by (simp add: guess_unfold Let_def a spec_white_pairs_def)
qed

lemma spec_pass2_sound:
  "(i, j) \<in> set (spec_pass2 G S consumed is) \<Longrightarrow>
     i \<in> set is \<and> j < 4 \<and> j \<notin> set consumed \<and> G ! i = S ! j"
proof (induction "is" arbitrary: consumed)
  case Nil
  then show ?case by simp
next
  case (Cons a "is")
  show ?case
  proof (cases "find (\<lambda>j. j \<notin> set consumed \<and> G ! a = S ! j) [0..<4]")
    case None
    then show ?thesis using Cons by auto
  next
    case (Some k)
    then have k: "k < 4" "k \<notin> set consumed" "G ! a = S ! k"
      by (auto simp: find_Some_iff)
    show ?thesis
    proof (cases "(i, j) = (a, k)")
      case True
      then show ?thesis using k by simp
    next
      case False
      then have "(i, j) \<in> set (spec_pass2 G S (k # consumed) is)"
        using Cons.prems Some by auto
      from Cons.IH [OF this] show ?thesis by simp
    qed
  qed
qed

lemma spec_pass2_distinct_snd: "distinct (map snd (spec_pass2 G S consumed is))"
proof (induction "is" arbitrary: consumed)
  case Nil
  then show ?case by simp
next
  case (Cons a "is")
  show ?case
  proof (cases "find (\<lambda>j. j \<notin> set consumed \<and> G ! a = S ! j) [0..<4]")
    case None
    then show ?thesis using Cons by simp
  next
    case (Some k)
    have "k \<notin> snd ` set (spec_pass2 G S (k # consumed) is)"
    proof
      assume "k \<in> snd ` set (spec_pass2 G S (k # consumed) is)"
      then obtain i where "(i, k) \<in> set (spec_pass2 G S (k # consumed) is)" by auto
      from spec_pass2_sound [OF this] show False by simp
    qed
    then show ?thesis using Some Cons by simp
  qed
qed

lemma spec_pass2_distinct_fst:
  "distinct is \<Longrightarrow> distinct (map fst (spec_pass2 G S consumed is))"
proof (induction "is" arbitrary: consumed)
  case Nil
  then show ?case by simp
next
  case (Cons a "is")
  show ?case
  proof (cases "find (\<lambda>j. j \<notin> set consumed \<and> G ! a = S ! j) [0..<4]")
    case None
    then show ?thesis using Cons by simp
  next
    case (Some k)
    have "a \<notin> fst ` set (spec_pass2 G S (k # consumed) is)"
    proof
      assume "a \<in> fst ` set (spec_pass2 G S (k # consumed) is)"
      then obtain j where "(a, j) \<in> set (spec_pass2 G S (k # consumed) is)" by auto
      from spec_pass2_sound [OF this] show False using Cons.prems by simp
    qed
    then show ?thesis using Some Cons by simp
  qed
qed

lemma spec_pass2_length: "length (spec_pass2 G S consumed is) \<le> length is"
proof (induction "is" arbitrary: consumed)
  case Nil
  then show ?case by simp
next
  case (Cons a "is")
  show ?case
  proof (cases "find (\<lambda>j. j \<notin> set consumed \<and> G ! a = S ! j) [0..<4]")
    case None
    then show ?thesis using Cons [of consumed] by simp
  next
    case (Some k)
    then show ?thesis using Cons [of "k # consumed"] by simp
  qed
qed

lemma count_list_distinct: "distinct xs \<Longrightarrow> count_list xs x \<le> 1"
  by (induction xs) (auto simp: count_list_0_iff)

lemma spec_white_pairs_sound:
  assumes "(i, j) \<in> set (spec_white_pairs G S)"
  shows "i < 4 \<and> j < 4 \<and> i \<notin> set (spec_exact G S) \<and> j \<notin> set (spec_exact G S) \<and> G ! i = S ! j"
  using spec_pass2_sound [OF assms [unfolded spec_white_pairs_def Let_def]] by auto

lemma spec_white_pairs_length: "length (spec_white_pairs G S) \<le> PEG_SLOTS"
proof -
  have "length (spec_white_pairs G S)
          \<le> length (filter (\<lambda>i. i \<notin> set (spec_exact G S)) [0..<4])"
    by (simp add: spec_white_pairs_def Let_def spec_pass2_length)
  then show ?thesis
    using length_filter_le [of "\<lambda>i. i \<notin> set (spec_exact G S)" "[0..<4]"]
    by (simp add: PEG_SLOTS_def)
qed

lemma guess_white_unat_spec:
  "unat (white_keys (fst (guess g pegs))) = length (spec_white_pairs pegs (m_hidden_pegs g))"
  by (simp add: guess_white_spec unat_of_nat_slots spec_white_pairs_length)

lemma fold_marks_length: "length (fold (\<lambda>p m. m[snd p := True]) P wm) = length wm"
  by (induction P arbitrary: wm) auto

lemma fold_marks_nth:
  "j < length wm \<Longrightarrow>
   fold (\<lambda>p m. m[snd p := True]) P wm ! j = (wm ! j \<or> j \<in> snd ` set P)"
proof (induction P arbitrary: wm)
  case Nil
  then show ?case by simp
next
  case (Cons p P)
  then show ?case by (cases "j = snd p") (auto simp: nth_list_update)
qed

lemma black_flags_spec:
  "snd (find_black pegs hidden 0 (0, replicate PEG_SLOTS False))
     = map (\<lambda>i. i \<in> set (spec_exact pegs hidden)) [0..<4]"
proof (rule nth_equalityI)
  show "length (snd (find_black pegs hidden 0 (0, replicate PEG_SLOTS False)))
          = length (map (\<lambda>i. i \<in> set (spec_exact pegs hidden)) [0..<4])"
    by (simp add: find_black_snd_length PEG_SLOTS_def)
next
  fix k
  assume "k < length (snd (find_black pegs hidden 0 (0, replicate PEG_SLOTS False)))"
  then have k: "k < PEG_SLOTS" by (simp add: find_black_snd_length)
  then show "snd (find_black pegs hidden 0 (0, replicate PEG_SLOTS False)) ! k
          = map (\<lambda>i. i \<in> set (spec_exact pegs hidden)) [0..<4] ! k"
    by (simp add: black_flags spec_exact_def upt_slots)
qed

lemma white_flags_spec:
  "snd (find_white pegs hidden (snd (find_black pegs hidden 0 (0, replicate PEG_SLOTS False))) 0
          (0, replicate PEG_SLOTS False))
     = map (\<lambda>j. j \<in> snd ` set (spec_white_pairs pegs hidden)) [0..<4]"
proof -
  let ?bm = "snd (find_black pegs hidden 0 (0, replicate PEG_SLOTS False))"
  let ?P = "spec_white_pairs pegs hidden"
  have c: "(j \<in> set (spec_exact pegs hidden)) = (?bm ! j \<or> replicate PEG_SLOTS False ! j)"
    if "j < PEG_SLOTS" for j
    using that by (simp add: black_flags spec_exact_exact exact_def)
  have a: "filter (\<lambda>k. \<not> ?bm ! k) [0..<PEG_SLOTS] =
           filter (\<lambda>i. i \<notin> set (spec_exact pegs hidden)) [0..<4]"
    unfolding upt_slots
    by (rule filter_cong) (auto simp: black_flags spec_exact_exact exact_def)
  have s: "snd (find_white pegs hidden ?bm 0 (0, replicate PEG_SLOTS False))
             = fold (\<lambda>p m. m[snd p := True]) ?P (replicate PEG_SLOTS False)"
    using find_white_spec [of "replicate PEG_SLOTS False" "spec_exact pegs hidden" ?bm pegs hidden 0 0, OF _ c]
    by (simp add: a spec_white_pairs_def Let_def)
  show ?thesis
    unfolding s
    by (rule nth_equalityI)
       (simp_all add: fold_marks_length fold_marks_nth PEG_SLOTS_def)
qed

section \<open>White keys as a multiset intersection\<close>

lemma count_list_pos: "0 < count_list xs x \<Longrightarrow> x \<in> set xs"
  by (rule ccontr) (simp add: count_list_0_iff)

lemma color_matches_size: "color_matches G S = size (mset G \<inter># mset S)"
proof -
  have "size (mset G \<inter># mset S) =
        (\<Sum>v \<in> set G \<inter> set S. min (count_list G v) (count_list S v))"
    by (simp add: size_multiset_overloaded_eq count_mset)
  also have "\<dots> = (\<Sum>v \<in> set G \<union> set S. min (count_list G v) (count_list S v))"
    by (rule sum.mono_neutral_left) (auto dest: count_list_pos)
  finally show ?thesis by (simp add: color_matches_def)
qed

lemma color_matches_UNIV:
  "color_matches G S = (\<Sum>v \<in> UNIV. min (count_list G v) (count_list S v))"
  unfolding color_matches_def
  by (rule sum.mono_neutral_left) (auto simp: count_list_0_iff)

lemma mset_split_exact:
  assumes "length xs = PEG_SLOTS"
  shows "mset xs = mset (map ((!) xs) (exact pegs hidden)) + mset (map ((!) xs) (inexact pegs hidden))"
proof -
  have "mset xs = mset (map ((!) xs) [0..<PEG_SLOTS])"
    using assms map_nth [of xs] by simp
  also have "\<dots> = image_mset ((!) xs) (mset [0..<PEG_SLOTS])" by simp
  also have "mset [0..<PEG_SLOTS] = mset (exact pegs hidden) + mset (inexact pegs hidden)"
    unfolding exact_def inexact_def by (simp only: mset_filter multiset_partition [symmetric])
  finally show ?thesis by simp
qed

lemma size_inter_guess:
  assumes "length pegs = PEG_SLOTS" "length hidden = PEG_SLOTS"
  shows "size (mset pegs \<inter># mset hidden) =
           length (exact pegs hidden) +
           size (mset (map ((!) pegs) (inexact pegs hidden))
                 \<inter># mset (map ((!) hidden) (inexact pegs hidden)))"
proof -
  let ?E = "mset (map ((!) hidden) (exact pegs hidden))"
  let ?X = "mset (map ((!) pegs) (inexact pegs hidden))"
  let ?Y = "mset (map ((!) hidden) (inexact pegs hidden))"
  have e: "map ((!) pegs) (exact pegs hidden) = map ((!) hidden) (exact pegs hidden)"
    by (rule map_cong) (auto simp: exact_def)
  have p: "mset pegs = ?X + ?E"
    using mset_split_exact [OF assms(1), of pegs hidden] by (simp only: e add.commute)
  have h: "mset hidden = ?Y + ?E"
    using mset_split_exact [OF assms(2), of pegs hidden] by (simp only: add.commute)
  have "mset pegs \<inter># mset hidden = (?X \<inter># ?Y) + ?E"
    unfolding p h by (rule inter_union_distrib_left [symmetric])
  then show ?thesis by simp
qed

lemma distinct_subset_mset:
  assumes "distinct xs" "set xs \<subseteq> set ys"
  shows "mset xs \<subseteq># mset ys"
proof (rule mset_subset_eqI)
  fix a
  show "count (mset xs) a \<le> count (mset ys) a"
  proof (cases "a \<in> set xs")
    case True
    then have "count (mset xs) a = 1" using assms(1) by (simp add: distinct_count_atmost_1)
    moreover have "0 < count (mset ys) a" using True assms(2) by (auto intro: count_mset_gt_0)
    ultimately show ?thesis by simp
  next
    case False
    then have z: "count (mset xs) a = 0" by simp
    show ?thesis by (simp only: z le0)
  qed
qed

lemma matching_le_inter:
  assumes "color_only_matching G S M"
  shows "length M \<le> size (mset (map ((!) G) (inexact G S)) \<inter># mset (map ((!) S) (inexact G S)))"
proof -
  from assms have d: "distinct (map fst M)" "distinct (map snd M)"
    by (simp_all add: color_only_matching_def)
  have a: "i < 4 \<and> j < 4 \<and> G ! i \<noteq> S ! i \<and> G ! j \<noteq> S ! j \<and> G ! i = S ! j"
    if "(i, j) \<in> set M" for i j
  proof -
    from assms have "\<forall>p \<in> set M. case p of (i, j) \<Rightarrow>
        i < 4 \<and> j < 4 \<and> G ! i \<noteq> S ! i \<and> G ! j \<noteq> S ! j \<and> G ! i = S ! j"
      by (simp add: color_only_matching_def list_all_iff)
    from bspec [OF this that] show ?thesis unfolding prod.case .
  qed
  have f: "set (map fst M) \<subseteq> set (inexact G S)"
  proof
    fix i
    assume "i \<in> set (map fst M)"
    then obtain j where "(i, j) \<in> set M" by auto
    from a [OF this] show "i \<in> set (inexact G S)"
      by (auto simp: inexact_def PEG_SLOTS_def)
  qed
  have s: "set (map snd M) \<subseteq> set (inexact G S)"
  proof
    fix j
    assume "j \<in> set (map snd M)"
    then obtain i where "(i, j) \<in> set M" by auto
    from a [OF this] show "j \<in> set (inexact G S)"
      by (auto simp: inexact_def PEG_SLOTS_def)
  qed
  have e: "map ((!) G) (map fst M) = map ((!) S) (map snd M)"
    using a by (auto simp: map_eq_conv)
  let ?F = "mset (map fst M)"
  let ?I = "mset (inexact G S)"
  have "mset (map ((!) G) (map fst M)) = mset (map ((!) S) (map snd M))"
    by (simp only: e)
  then have e': "image_mset ((!) G) ?F = image_mset ((!) S) (mset (map snd M))"
    by (simp only: mset_map)
  have 1: "image_mset ((!) G) ?F \<subseteq># image_mset ((!) G) ?I"
    by (rule image_mset_subseteq_mono [OF distinct_subset_mset [OF d(1) f]])
  have 2: "image_mset ((!) G) ?F \<subseteq># image_mset ((!) S) ?I"
    unfolding e' by (rule image_mset_subseteq_mono [OF distinct_subset_mset [OF d(2) s]])
  have "image_mset ((!) G) ?F \<subseteq># image_mset ((!) G) ?I \<inter># image_mset ((!) S) ?I"
    using 1 2 by (rule subset_mset.inf_greatest)
  from size_mset_mono [OF this]
  have "length M \<le> size (image_mset ((!) G) ?I \<inter># image_mset ((!) S) ?I)"
    by simp
  then show ?thesis by (simp only: mset_map)
qed

lemma spec_white_pairs_matching: "color_only_matching G S (spec_white_pairs G S)"
proof -
  have "distinct (map fst (spec_white_pairs G S))"
    by (simp add: spec_white_pairs_def Let_def spec_pass2_distinct_fst)
  moreover have "distinct (map snd (spec_white_pairs G S))"
    by (simp add: spec_white_pairs_def Let_def spec_pass2_distinct_snd)
  moreover have "i < 4 \<and> j < 4 \<and> G ! i \<noteq> S ! i \<and> G ! j \<noteq> S ! j \<and> G ! i = S ! j"
    if "(i, j) \<in> set (spec_white_pairs G S)" for i j
    using spec_white_pairs_sound [OF that] by (auto simp: spec_exact_def)
  ultimately show ?thesis
    by (auto simp: color_only_matching_def list_all_iff)
qed

lemma size_inter_filter:
  assumes "\<And>y. y \<in> set ys \<Longrightarrow> P y"
  shows "size (mset xs \<inter># mset ys) \<le> length (filter P xs)"
proof -
  have "mset xs \<inter># mset ys \<subseteq># mset (filter P xs)"
  proof (rule mset_subset_eqI)
    fix a
    show "count (mset xs \<inter># mset ys) a \<le> count (mset (filter P xs)) a"
    proof (cases "P a")
      case True
      then show ?thesis by simp
    next
      case False
      then have "a \<notin> set ys" using assms by auto
      then have "count (mset ys) a = 0" by simp
      then show ?thesis by (simp only: count_inter_mset min_0R le0)
    qed
  qed
  from size_mset_mono [OF this] show ?thesis by (simp only: size_mset)
qed

lemma length_filter_exact_inexact:
  "length (filter Q (exact pegs hidden)) + length (filter Q (inexact pegs hidden))
     = length (filter Q [0..<PEG_SLOTS])"
proof -
  have "filter Q (exact pegs hidden) =
          filter (\<lambda>k. pegs ! k = hidden ! k) (filter Q [0..<PEG_SLOTS])"
    by (simp add: exact_def conj_commute)
  moreover have "filter Q (inexact pegs hidden) =
          filter (\<lambda>k. \<not> pegs ! k = hidden ! k) (filter Q [0..<PEG_SLOTS])"
    by (simp add: inexact_def conj_commute)
  ultimately show ?thesis
    by (simp only: sum_length_filter_compl)
qed

lemma keys_in_range:
  assumes "length hidden = PEG_SLOTS" and "\<And>s. s \<in> set hidden \<Longrightarrow> s < c"
  shows "length (exact pegs hidden) +
         size (mset (map ((!) pegs) (inexact pegs hidden))
               \<inter># mset (map ((!) hidden) (inexact pegs hidden)))
           \<le> length (filter (\<lambda>k. pegs ! k < c) [0..<PEG_SLOTS])"
proof -
  have h: "hidden ! k < c" if "k < PEG_SLOTS" for k
    using assms that by simp
  have "filter (\<lambda>k. pegs ! k < c) (exact pegs hidden) = exact pegs hidden"
    unfolding filter_id_conv using h by (auto simp: exact_def)
  then have e: "length (exact pegs hidden) = length (filter (\<lambda>k. pegs ! k < c) (exact pegs hidden))"
    by simp
  have "size (mset (map ((!) pegs) (inexact pegs hidden))
              \<inter># mset (map ((!) hidden) (inexact pegs hidden)))
          \<le> length (filter (\<lambda>v. v < c) (map ((!) pegs) (inexact pegs hidden)))"
    by (rule size_inter_filter) (use h in \<open>auto simp: inexact_def\<close>)
  also have "\<dots> = length (filter (\<lambda>k. pegs ! k < c) (inexact pegs hidden))"
    by (simp add: filter_map comp_def)
  finally show ?thesis
    using e length_filter_exact_inexact [of "\<lambda>k. pegs ! k < c" pegs hidden] by linarith
qed

section \<open>Evaluations used by the examples\<close>

lemma guess_1122_1212:
  "fst (guess \<lparr>m_hidden_pegs = [1, 1, 2, 2], m_peg_colors = 8, m_tries_allowed = 10\<rparr> [1, 2, 1, 2])
     = \<lparr>win = False, black_keys = 2, white_keys = 2\<rparr>"
  by (simp add: guess_def find_black.simps find_white.simps scan_hidden.simps PEG_SLOTS_def)

lemma upt_4: "[0..<4] = [0, 1, 2, 3]"
  by (simp add: upt_rec)

lemma spec_white_pairs_1212_1122: "spec_white_pairs [1, 2, 1, 2] [1, 1, 2, 2] = [(1, 2), (2, 1)]"
  by (simp add: spec_white_pairs_def spec_exact_def upt_4)

section \<open>Properties of the engine\<close>

text \<open>
  C1: for a guess and a secret of length 4, \<open>guess\<close> returns true exactly when
  \<open>black_keys\<close> is 4, and \<open>black_keys\<close> is 4 exactly when the guess equals the secret,
  that is, when they agree at each of the four positions.
\<close>

theorem guess_win_iff:
  assumes "length pegs = 4" "length (m_hidden_pegs g) = 4"
  shows "win (fst (guess g pegs)) = (black_keys (fst (guess g pegs)) = 4) \<and>
         (black_keys (fst (guess g pegs)) = 4) = (pegs = m_hidden_pegs g) \<and>
         (pegs = m_hidden_pegs g) = (\<forall>i<4. pegs ! i = m_hidden_pegs g ! i)"
proof -
  let ?r = "fst (guess g pegs)"
  have w: "win ?r = (black_keys ?r = 4)"
    by (simp add: guess_win PEG_SLOTS_def)
  have "(black_keys ?r = 4) = (unat (black_keys ?r) = 4)"
    by (simp add: word_unat_eq_iff)
  also have "\<dots> = (pegs = m_hidden_pegs g)"
    using exact_all [of pegs "m_hidden_pegs g"] assms
    by (simp add: guess_black_unat PEG_SLOTS_def)
  finally have b: "(black_keys ?r = 4) = (pegs = m_hidden_pegs g)" .
  have "(pegs = m_hidden_pegs g) = (\<forall>i<4. pegs ! i = m_hidden_pegs g ! i)"
    using assms by (auto simp: list_eq_iff_nth_eq)
  with w b show ?thesis by simp
qed

theorem guess_win_iff_witness:
  "length [1, 2, 3, 4 :: u32] = 4 \<and>
   win (fst (guess \<lparr>m_hidden_pegs = [1, 2, 3, 4], m_peg_colors = 8, m_tries_allowed = 10\<rparr>
                   [1, 2, 3, 4])) \<and>
   black_keys (fst (guess \<lparr>m_hidden_pegs = [1, 2, 3, 4], m_peg_colors = 8, m_tries_allowed = 10\<rparr>
                   [1, 2, 3, 4])) = 4 \<and>
   \<not> win (fst (guess \<lparr>m_hidden_pegs = [1, 2, 3, 4], m_peg_colors = 8, m_tries_allowed = 10\<rparr>
                   [1, 2, 3, 5]))"
  using guess_win_iff
    [of "[1, 2, 3, 4]" "\<lparr>m_hidden_pegs = [1, 2, 3, 4], m_peg_colors = 8, m_tries_allowed = 10\<rparr>"]
   guess_win_iff
    [of "[1, 2, 3, 5]" "\<lparr>m_hidden_pegs = [1, 2, 3, 4], m_peg_colors = 8, m_tries_allowed = 10\<rparr>"]
  by simp

text \<open>
  C2: the white keys that \<open>guess\<close> reports are those of the greedy pass as the
  specification words it. After the exact matches are marked (the black flags are the
  consumed positions of pass 1), each unconsumed guess position scans the unconsumed
  secret positions in increasing order and takes the first one with its value: the
  number of white keys is the number of pairs so formed, and the white flags at the end
  are the secret positions of these pairs. No secret position is in two pairs, and a
  guess position is either an exact match or in at most one pair, never both.
\<close>

theorem guess_white_greedy:
  "white_keys (fst (guess g pegs)) = of_nat (spec_whiteKeys pegs (m_hidden_pegs g)) \<and>
   unat (white_keys (fst (guess g pegs))) = spec_whiteKeys pegs (m_hidden_pegs g) \<and>
   black_keys (fst (guess g pegs)) = of_nat (length (spec_exact pegs (m_hidden_pegs g))) \<and>
   snd (find_black pegs (m_hidden_pegs g) 0 (0, replicate PEG_SLOTS False))
     = map (\<lambda>i. i \<in> set (spec_exact pegs (m_hidden_pegs g))) [0..<4] \<and>
   snd (find_white pegs (m_hidden_pegs g)
          (snd (find_black pegs (m_hidden_pegs g) 0 (0, replicate PEG_SLOTS False))) 0
          (0, replicate PEG_SLOTS False))
     = map (\<lambda>j. j \<in> snd ` set (spec_white_pairs pegs (m_hidden_pegs g))) [0..<4] \<and>
   count_list (map snd (spec_white_pairs pegs (m_hidden_pegs g))) j \<le> 1 \<and>
   (if i \<in> set (spec_exact pegs (m_hidden_pegs g)) then 1 else 0)
     + count_list (map fst (spec_white_pairs pegs (m_hidden_pegs g))) i \<le> (1::nat)"
proof -
  let ?h = "m_hidden_pegs g"
  let ?P = "spec_white_pairs pegs ?h"
  have w: "white_keys (fst (guess g pegs)) = of_nat (length ?P)"
    by (rule guess_white_spec)
  have ds: "distinct (map snd ?P)"
    by (simp add: spec_white_pairs_def Let_def spec_pass2_distinct_snd)
  have df: "distinct (map fst ?P)"
    by (simp add: spec_white_pairs_def Let_def spec_pass2_distinct_fst)
  have u: "unat (white_keys (fst (guess g pegs))) = length ?P"
    by (rule guess_white_unat_spec)
  have b: "black_keys (fst (guess g pegs)) = of_nat (length (spec_exact pegs ?h))"
    by (simp add: guess_black spec_exact_exact)
  have s: "count_list (map snd ?P) j \<le> 1"
    using ds by (rule count_list_distinct)
  have f: "(if i \<in> set (spec_exact pegs ?h) then 1 else 0) + count_list (map fst ?P) i \<le> (1::nat)"
  proof (cases "i \<in> set (spec_exact pegs ?h)")
    case True
    then have "i \<notin> set (map fst ?P)"
      using spec_white_pairs_sound [of i _ pegs ?h] by auto
    then show ?thesis using True by (simp add: count_list_0_iff)
  next
    case False
    then show ?thesis using count_list_distinct [OF df, of i] by simp
  qed
  show ?thesis
    unfolding spec_whiteKeys_def
    using w u b black_flags_spec [of pegs ?h] white_flags_spec [of pegs ?h] s f by blast
qed

theorem guess_white_greedy_witness:
  "spec_white_pairs [1, 2, 1, 2] [1, 1, 2, 2] = [(1, 2), (2, 1)] \<and>
   white_keys (fst (guess \<lparr>m_hidden_pegs = [1, 1, 2, 2], m_peg_colors = 8,
                            m_tries_allowed = 10\<rparr> [1, 2, 1, 2])) = 2 \<and>
   count_list (map snd (spec_white_pairs [1, 2, 1, 2] [1, 1, 2, 2])) 2 \<le> 1"
  using guess_white_greedy
    [of "\<lparr>m_hidden_pegs = [1, 1, 2, 2], m_peg_colors = 8, m_tries_allowed = 10\<rparr>" "[1, 2, 1, 2]" 2 1]
  by (simp add: spec_white_pairs_1212_1122 spec_whiteKeys_def)

text \<open>
  C3: the black keys and the white keys that \<open>guess\<close> reports add up to at most 4. This
  holds for every guess and secret, so in particular for those of length 4 whose values
  lie below the colour count.
\<close>

theorem guess_keys_at_most_slots:
  "unat (black_keys (fst (guess g pegs))) + unat (white_keys (fst (guess g pegs))) \<le> 4"
proof -
  have "unat (white_keys (fst (guess g pegs))) \<le> length (inexact pegs (m_hidden_pegs g))"
    unfolding guess_white_unat by (rule size_inter_le)
  then show ?thesis
    using length_exact_inexact [of pegs "m_hidden_pegs g"]
    by (simp add: guess_black_unat PEG_SLOTS_def)
qed

text \<open>
  C4: scoring is symmetric. Guessing \<open>A\<close> against the secret \<open>B\<close> gives the same black keys
  and the same white keys as guessing \<open>B\<close> against the secret \<open>A\<close>, whatever the other
  fields of the two objects hold.
\<close>

theorem guess_symmetric:
  "black_keys (fst (guess (g\<lparr>m_hidden_pegs := B\<rparr>) A)) =
     black_keys (fst (guess (g'\<lparr>m_hidden_pegs := A\<rparr>) B)) \<and>
   white_keys (fst (guess (g\<lparr>m_hidden_pegs := B\<rparr>) A)) =
     white_keys (fst (guess (g'\<lparr>m_hidden_pegs := A\<rparr>) B))"
proof -
  have e: "exact A B = exact B A"
    unfolding exact_def by (intro filter_cong) auto
  have i: "inexact A B = inexact B A"
    unfolding inexact_def by (intro filter_cong) auto
  show ?thesis
    by (simp add: guess_black guess_white e i subset_mset.inf_commute)
qed

text \<open>
  C5: after any call of \<open>guess\<close>, whatever it returns, \<open>turnsLeft\<close> is one less than
  before. The subtraction is that of \<open>uint32_t\<close>; when tries were left, the value read as
  a number has gone down by exactly one.
\<close>

theorem guess_decrements_turns:
  "fst (turnsLeft (snd (guess g pegs))) = fst (turnsLeft g) - 1 \<and>
   (fst (turnsLeft g) \<noteq> 0 \<longrightarrow>
      unat (fst (turnsLeft (snd (guess g pegs)))) + 1 = unat (fst (turnsLeft g)))"
proof -
  have a: "fst (turnsLeft (snd (guess g pegs))) = fst (turnsLeft g) - 1"
    by (simp add: guess_snd turnsLeft_def)
  have "unat (m_tries_allowed g - 1) + 1 = unat (m_tries_allowed g)" if "m_tries_allowed g \<noteq> 0"
  proof -
    have "0 < unat (m_tries_allowed g)" using that by (simp add: unat_gt_0)
    then show ?thesis using that by (simp add: unat_minus_one)
  qed
  then show ?thesis using a by (simp add: turnsLeft_def)
qed

theorem guess_decrements_turns_witness:
  "fst (turnsLeft \<lparr>m_hidden_pegs = [1, 2, 3, 4], m_peg_colors = 8, m_tries_allowed = 10\<rparr>) \<noteq> 0 \<and>
   fst (turnsLeft (snd (guess \<lparr>m_hidden_pegs = [1, 2, 3, 4], m_peg_colors = 8,
                                m_tries_allowed = 10\<rparr> [4, 3, 2, 1]))) = 9 \<and>
   unat (fst (turnsLeft (snd (guess \<lparr>m_hidden_pegs = [1, 2, 3, 4], m_peg_colors = 8,
                                      m_tries_allowed = 10\<rparr> [4, 3, 2, 1])))) + 1 = 10"
  using guess_decrements_turns
    [of "\<lparr>m_hidden_pegs = [1, 2, 3, 4], m_peg_colors = 8, m_tries_allowed = 10\<rparr>" "[4, 3, 2, 1]"]
  by (simp add: turnsLeft_def)

text \<open>
  C6: with the secret \<open>[1,1,2,2]\<close> and the guess \<open>[1,2,1,2]\<close>, \<open>guess\<close> returns two black
  keys and two white keys (and no win), whatever the colour count and the tries left.
\<close>

theorem guess_scenario_1122_1212:
  "fst (guess \<lparr>m_hidden_pegs = [1, 1, 2, 2], m_peg_colors = c, m_tries_allowed = t\<rparr> [1, 2, 1, 2])
     = \<lparr>win = False, black_keys = 2, white_keys = 2\<rparr>"
  by (simp add: guess_def find_black.simps find_white.simps scan_hidden.simps PEG_SLOTS_def)

text \<open>
  C7: no operation changes the hidden pegs or the colour count. \<open>guess\<close> returns the
  object with only \<open>m_tries_allowed\<close> changed, \<open>turnsLeft\<close> and \<open>peer\<close> return it as it
  was, and \<open>peer\<close> fills the caller's array with a copy of the hidden pegs.
\<close>

theorem secret_immutable:
  "snd (guess g pegs) = g\<lparr>m_tries_allowed := m_tries_allowed g - 1\<rparr> \<and>
   m_hidden_pegs (snd (guess g pegs)) = m_hidden_pegs g \<and>
   m_peg_colors (snd (guess g pegs)) = m_peg_colors g \<and>
   snd (turnsLeft g) = g \<and>
   snd (peer g out) = g \<and>
   (length out = 4 \<and> length (m_hidden_pegs g) = 4 \<longrightarrow> fst (peer g out) = m_hidden_pegs g)"
  by (simp add: guess_snd turnsLeft_def peer_def peer_loop_copy PEG_SLOTS_def)

theorem secret_immutable_witness:
  "length [9, 9, 9, 9 :: u32] = 4 \<and> length [1, 2, 3, 4 :: u32] = 4 \<and>
   fst (peer \<lparr>m_hidden_pegs = [1, 2, 3, 4], m_peg_colors = 8, m_tries_allowed = 10\<rparr> [9, 9, 9, 9])
     = [1, 2, 3, 4] \<and>
   m_hidden_pegs (snd (guess \<lparr>m_hidden_pegs = [1, 2, 3, 4], m_peg_colors = 8,
                               m_tries_allowed = 10\<rparr> [4, 3, 2, 1])) = [1, 2, 3, 4]"
  using secret_immutable
    [of "\<lparr>m_hidden_pegs = [1, 2, 3, 4], m_peg_colors = 8, m_tries_allowed = 10\<rparr>"
        "[4, 3, 2, 1]" "[9, 9, 9, 9]"]
  by simp

text \<open>
  C8: let every hidden peg be below the colour count, and let the guess peg at position
  \<open>i\<close> be out of range. Then this peg gives no key: the first loop passes position \<open>i\<close>
  with counter and flags unchanged, the scan of the hidden pegs for it finds nothing,
  and the second loop passes position \<open>i\<close> with counter and flags unchanged. The keys
  reported are at most as many as the guess pegs in range. No validation takes place:
  \<open>guess\<close> returns as for any other guess, having used up one try.
\<close>

theorem out_of_range_peg_never_matches:
  assumes "length pegs = 4" and "length (m_hidden_pegs g) = 4"
    and "\<forall>s \<in> set (m_hidden_pegs g). s < m_peg_colors g"
    and "i < 4" and "\<not> pegs ! i < m_peg_colors g"
  shows "find_black pegs (m_hidden_pegs g) i (bk, bm) =
           find_black pegs (m_hidden_pegs g) (Suc i) (bk, bm) \<and>
         scan_hidden (pegs ! i) (m_hidden_pegs g) bm' 0 (wk, wm) = (wk, wm) \<and>
         find_white pegs (m_hidden_pegs g) bm' i (wk, wm) =
           find_white pegs (m_hidden_pegs g) bm' (Suc i) (wk, wm) \<and>
         unat (black_keys (fst (guess g pegs))) + unat (white_keys (fst (guess g pegs)))
           \<le> length (filter (\<lambda>k. pegs ! k < m_peg_colors g) [0..<4]) \<and>
         snd (guess g pegs) = g\<lparr>m_tries_allowed := m_tries_allowed g - 1\<rparr>"
proof -
  let ?h = "m_hidden_pegs g"
  have i: "i < PEG_SLOTS" using assms(4) by (simp add: PEG_SLOTS_def)
  have n: "pegs ! i \<noteq> ?h ! k" if "k < PEG_SLOTS" for k
  proof
    assume "pegs ! i = ?h ! k"
    moreover have "?h ! k \<in> set ?h" using that assms(2) by (simp add: PEG_SLOTS_def)
    ultimately show False using assms(3) assms(5) by auto
  qed
  have a: "find_black pegs ?h i (bk, bm) = find_black pegs ?h (Suc i) (bk, bm)"
    using i n [OF i] by (simp add: find_black.simps [of pegs ?h i])
  have "find (\<lambda>k. \<not> bm' ! k \<and> \<not> wm ! k \<and> pegs ! i = ?h ! k) [0..<PEG_SLOTS] = None"
    using n by (simp add: find_None_iff)
  then have b: "scan_hidden (pegs ! i) ?h bm' 0 (wk, wm) = (wk, wm)"
    by (simp add: scan_hidden_find)
  have c: "find_white pegs ?h bm' i (wk, wm) = find_white pegs ?h bm' (Suc i) (wk, wm)"
    using i b by (simp add: find_white.simps [of pegs ?h bm' i])
  have d: "unat (black_keys (fst (guess g pegs))) + unat (white_keys (fst (guess g pegs)))
             \<le> length (filter (\<lambda>k. pegs ! k < m_peg_colors g) [0..<4])"
    using keys_in_range [of ?h "m_peg_colors g" pegs] assms(2) assms(3)
    by (simp add: guess_black_unat guess_white_unat PEG_SLOTS_def)
  show ?thesis using a b c d guess_snd [of g pegs] by simp
qed

theorem out_of_range_peg_never_matches_witness:
  "length [1, 9, 3, 4 :: u32] = 4 \<and> list_all (\<lambda>s. s < (8 :: u32)) [1, 2, 3, 4] \<and>
   \<not> [1, 9, 3, 4 :: u32] ! 1 < 8 \<and>
   scan_hidden 9 [1, 2, 3, 4] [True, False, True, True] 0 (0, [False, False, False, False])
     = (0, [False, False, False, False]) \<and>
   unat (black_keys (fst (guess \<lparr>m_hidden_pegs = [1, 2, 3, 4], m_peg_colors = 8,
                                  m_tries_allowed = 10\<rparr> [1, 9, 3, 4]))) +
   unat (white_keys (fst (guess \<lparr>m_hidden_pegs = [1, 2, 3, 4], m_peg_colors = 8,
                                  m_tries_allowed = 10\<rparr> [1, 9, 3, 4]))) \<le> 3"
proof -
  let ?g = "\<lparr>m_hidden_pegs = [1, 2, 3, 4], m_peg_colors = 8, m_tries_allowed = 10\<rparr>"
  have 1: "length [1, 9, 3, 4 :: u32] = 4" by simp
  have 2: "length (m_hidden_pegs ?g) = 4" by simp
  have 3: "\<forall>s \<in> set (m_hidden_pegs ?g). s < m_peg_colors ?g" by simp
  have 4: "(1::nat) < 4" by simp
  have 5: "\<not> [1, 9, 3, 4 :: u32] ! 1 < m_peg_colors ?g" by simp
  show ?thesis
    using out_of_range_peg_never_matches [OF 1 2 3 4 5, of 0 "[False, False, False, False]"
        "[True, False, True, True]" 0 "[False, False, False, False]"]
    by (simp add: upt_4)
qed

text \<open>
  C9: for a guess and a secret of length 4, the white keys equal the multiset reference
  minus the black keys, where the reference is the sum over all values \<open>v\<close> of the
  smaller of the occurrences of \<open>v\<close> in guess and secret. The greedy scan is optimal: no
  colour-only matching has more pairs than there are white keys, and one has as many.
\<close>

theorem guess_white_multiset:
  assumes "length pegs = 4" "length (m_hidden_pegs g) = 4"
  shows "unat (white_keys (fst (guess g pegs))) =
           color_matches pegs (m_hidden_pegs g) - unat (black_keys (fst (guess g pegs))) \<and>
         unat (black_keys (fst (guess g pegs))) \<le> color_matches pegs (m_hidden_pegs g) \<and>
         color_matches pegs (m_hidden_pegs g) =
           (\<Sum>v \<in> UNIV. min (count_list pegs v) (count_list (m_hidden_pegs g) v)) \<and>
         (\<forall>M. color_only_matching pegs (m_hidden_pegs g) M \<longrightarrow>
                length M \<le> unat (white_keys (fst (guess g pegs)))) \<and>
         (\<exists>M. color_only_matching pegs (m_hidden_pegs g) M \<and>
                length M = unat (white_keys (fst (guess g pegs))))"
proof -
  let ?h = "m_hidden_pegs g"
  have "color_matches pegs ?h =
          unat (black_keys (fst (guess g pegs))) + unat (white_keys (fst (guess g pegs)))"
    using assms size_inter_guess [of pegs ?h]
    by (simp add: color_matches_size guess_black_unat guess_white_unat PEG_SLOTS_def)
  then have a: "unat (white_keys (fst (guess g pegs))) =
                  color_matches pegs ?h - unat (black_keys (fst (guess g pegs)))"
    and b: "unat (black_keys (fst (guess g pegs))) \<le> color_matches pegs ?h"
    by simp_all
  have c: "\<forall>M. color_only_matching pegs ?h M \<longrightarrow>
                length M \<le> unat (white_keys (fst (guess g pegs)))"
  proof (intro allI impI)
    fix M
    assume "color_only_matching pegs ?h M"
    from matching_le_inter [OF this]
    show "length M \<le> unat (white_keys (fst (guess g pegs)))"
      unfolding guess_white_unat .
  qed
  have "unat (white_keys (fst (guess g pegs))) = length (spec_white_pairs pegs ?h)"
    by (rule guess_white_unat_spec)
  then have d: "\<exists>M. color_only_matching pegs ?h M \<and>
                length M = unat (white_keys (fst (guess g pegs)))"
    using spec_white_pairs_matching [of pegs ?h] by auto
  show ?thesis using a b c d color_matches_UNIV [of pegs ?h] by blast
qed

theorem guess_white_multiset_witness:
  "length [1, 2, 1, 2 :: u32] = 4 \<and>
   color_matches [1, 2, 1, 2] [1, 1, 2, 2] = 4 \<and>
   unat (white_keys (fst (guess \<lparr>m_hidden_pegs = [1, 1, 2, 2], m_peg_colors = 8,
                                  m_tries_allowed = 10\<rparr> [1, 2, 1, 2]))) = 4 - 2 \<and>
   color_only_matching [1, 2, 1, 2] [1, 1, 2, 2] [(2, 1), (1, 2)] \<and>
   length [(2, 1), (1, 2) :: nat \<times> nat]
     \<le> unat (white_keys (fst (guess \<lparr>m_hidden_pegs = [1, 1, 2, 2], m_peg_colors = 8,
                                        m_tries_allowed = 10\<rparr> [1, 2, 1, 2])))"
proof -
  let ?g = "\<lparr>m_hidden_pegs = [1, 1, 2, 2], m_peg_colors = 8, m_tries_allowed = 10\<rparr>"
  have 1: "length [1, 2, 1, 2 :: u32] = 4" by simp
  have 2: "length (m_hidden_pegs ?g) = 4" by simp
  have "set [1, 2, 1, 2] \<union> set [1, 1, 2, 2] = {1, 2 :: u32}" by auto
  then have c: "color_matches [1, 2, 1, 2] [1, 1, 2, 2] = 4"
    by (simp add: color_matches_def)
  have m: "color_only_matching [1, 2, 1, 2] [1, 1, 2, 2] [(2, 1), (1, 2)]"
    by (simp add: color_only_matching_def)
  have b: "unat (black_keys (fst (guess ?g [1, 2, 1, 2]))) = 2"
    by (simp add: guess_1122_1212)
  show ?thesis
    using guess_white_multiset [OF 1 2] c m b by simp
qed

text \<open>
  C10: when \<open>guess\<close> is called with no tries left, the counter wraps around:
  \<open>turnsLeft\<close> then returns 4294967295, that is \<open>2^32 - 1\<close>. Nothing in \<open>guess\<close> looks at
  the counter: the score is the one the same guess gets with any other number of tries.
\<close>

theorem guess_wraps_at_zero:
  assumes "fst (turnsLeft g) = 0"
  shows "fst (turnsLeft (snd (guess g pegs))) = 4294967295 \<and>
         unat (fst (turnsLeft (snd (guess g pegs)))) = 2 ^ 32 - 1 \<and>
         fst (guess g pegs) = fst (guess (g\<lparr>m_tries_allowed := t\<rparr>) pegs)"
proof -
  have z: "m_tries_allowed g = 0" using assms by (simp add: turnsLeft_def)
  have a: "fst (turnsLeft (snd (guess g pegs))) = 4294967295"
    by (simp add: guess_snd turnsLeft_def z)
  have b: "fst (guess g pegs) = fst (guess (g\<lparr>m_tries_allowed := t\<rparr>) pegs)"
    by (simp add: guess_unfold Let_def)
  show ?thesis using a b by simp
qed

theorem guess_wraps_at_zero_witness:
  "fst (turnsLeft \<lparr>m_hidden_pegs = [1, 2, 3, 4], m_peg_colors = 8, m_tries_allowed = 0\<rparr>) = 0 \<and>
   fst (turnsLeft (snd (guess \<lparr>m_hidden_pegs = [1, 2, 3, 4], m_peg_colors = 8,
                                m_tries_allowed = 0\<rparr> [4, 3, 2, 1]))) = 4294967295"
proof -
  have h: "fst (turnsLeft \<lparr>m_hidden_pegs = [1, 2, 3, 4], m_peg_colors = 8, m_tries_allowed = 0\<rparr>) = 0"
    by (simp add: turnsLeft_def)
  show ?thesis using h guess_wraps_at_zero [OF h, of "[4, 3, 2, 1]"] by simp
qed

end
